theory Spec2Isabelle
  imports Complex_Main
begin

section \<open>The denim supplier wizard: navigation, helpers and the path-addressed update\<close>

text \<open>
  The definitions below follow \<^verbatim>\<open>DenimSupplierWizard.tsx\<close>: the step table and the
  step navigation of the component, the keyboard handler, the autosave effect, the
  \<^verbatim>\<open>Checkset\<close> toggle, and the utilities \<^verbatim>\<open>setAt\<close>, \<^verbatim>\<open>toNum\<close> and \<^verbatim>\<open>mapPh\<close>. JavaScript strings are modelled as \<^typ>\<open>string\<close>; a character outside ASCII is
  the sequence of its UTF-8 bytes.
\<close>

subsection \<open>Steps\<close>

datatype StepKey = Warp | Indigo | Shade | Etp | Footprints | Safety | Handover

text \<open>An entry of \<^verbatim>\<open>STEPS\<close>. The icon of an entry is a glyph shown on the rail; it plays
  no part in navigation and is left out.\<close>

record step_entry =
  key :: StepKey
  label :: string

definition STEPS :: "step_entry list" where
  "STEPS =
    [\<lparr>key = Warp, label = ''Warp & Range''\<rparr>,
     \<lparr>key = Indigo, label = ''Indigo & Sizing''\<rparr>,
     \<lparr>key = Shade, label = ''Shade & Finish''\<rparr>,
     \<lparr>key = Etp, label = ''Effluent / ETP''\<rparr>,
     \<lparr>key = Footprints, label = ''Footprints''\<rparr>,
     \<lparr>key = Safety, label = ''Safety''\<rparr>,
     \<lparr>key = Handover, label = ''Handover''\<rparr>]"

text \<open>\<^verbatim>\<open>Array.prototype.findIndex\<close>: the index of the first element that satisfies the
  predicate, and \<open>-1\<close> when there is none.\<close>

fun findIndex :: "('a \<Rightarrow> bool) \<Rightarrow> 'a list \<Rightarrow> int" where
  "findIndex P [] = - 1"
| "findIndex P (x # xs) =
     (if P x then 0 else (let i = findIndex P xs in if i < 0 then - 1 else i + 1))"

text \<open>\<^verbatim>\<open>next\<close> and \<^verbatim>\<open>back\<close> of the component. Each reads the current step and
  calls \<^verbatim>\<open>setStep\<close> at most once; the result is the step after the call.\<close>

definition "next" :: "StepKey \<Rightarrow> StepKey" where
  "next step =
     (let idx = findIndex (\<lambda>s. key s = step) STEPS
      in if idx < int (length STEPS) - 1 then key (STEPS ! nat (idx + 1)) else step)"

definition "back" :: "StepKey \<Rightarrow> StepKey" where
  "back step =
     (let idx = findIndex (\<lambda>s. key s = step) STEPS
      in if idx > 0 then key (STEPS ! nat (idx - 1)) else step)"

subsection \<open>The multi-select toggle of \<^verbatim>\<open>Checkset\<close>\<close>

text \<open>A JavaScript \<^verbatim>\<open>Set\<close> keeps its elements in insertion order, each once. It is
  modelled as the list of its elements in that order.\<close>

definition Set_has :: "'a list \<Rightarrow> 'a \<Rightarrow> bool" where
  "Set_has s x = (x \<in> set s)"

definition Set_add :: "'a list \<Rightarrow> 'a \<Rightarrow> 'a list" where
  "Set_add s x = (if x \<in> set s then s else s @ [x])"

definition Set_delete :: "'a list \<Rightarrow> 'a \<Rightarrow> 'a list" where
  "Set_delete s x = filter (\<lambda>y. y \<noteq> x) s"

definition Set_new :: "'a list \<Rightarrow> 'a list" where
  "Set_new values = fold (\<lambda>x s. Set_add s x) values []"

definition toggle :: "'a list \<Rightarrow> 'a \<Rightarrow> 'a list" where
  "toggle values o' =
     (let s = Set_new values;
          s' = (if Set_has s o' then Set_delete s o' else Set_add s o')
      in s')"

text \<open>\<^verbatim>\<open>Array.from(set)\<close> lists the elements in insertion order, which is the list
  itself; \<^verbatim>\<open>onChange\<close> receives that list.\<close>

subsection \<open>The pH window normalisation \<^verbatim>\<open>mapPh\<close>\<close>

definition startsWith :: "string \<Rightarrow> string \<Rightarrow> bool" where
  "startsWith v p = (take (length p) v = p)"

text \<open>The en dash U+2013 of the option texts, as its three UTF-8 bytes.\<close>

definition en_dash :: string where
  "en_dash = [CHR 0xE2, CHR 0x80, CHR 0x93]"

definition mapPh :: "string \<Rightarrow> string" where
  "mapPh v =
     (if startsWith v ''10.0'' then ''10.0'' @ en_dash @ ''10.4''
      else if startsWith v ''10.5'' then ''10.5'' @ en_dash @ ''11.5''
      else if startsWith v ''11.6'' then ''11.6'' @ en_dash @ ''12.0''
      else v)"

text \<open>The options the pH select displays (the \<^verbatim>\<open>options\<close> of the select in
  \<^verbatim>\<open>StepContent\<close>).\<close>

definition ph_options :: "string list" where
  "ph_options =
     [''10.0'' @ en_dash @ ''10.4'',
      ''10.5'' @ en_dash @ ''11.5 (mono-enolate)'',
      ''11.6'' @ en_dash @ ''12.0'']"

subsection \<open>Numbers and \<^verbatim>\<open>toNum\<close>\<close>

text \<open>
  A JavaScript number is \<open>NaN\<close>, an infinity, or a finite value. \<open>Fin q\<close> stands for the
  double nearest to the rational \<open>q\<close>: rounding to binary64 is not modelled, and the sign
  of zero is not kept.
\<close>

datatype jsnum = NaN | PosInf | NegInf | Fin rat



definition is_digit :: "char \<Rightarrow> bool" where
  "is_digit c = (48 \<le> (of_char c :: nat) \<and> (of_char c :: nat) \<le> 57)"









subsection \<open>Values and the object store\<close>

text \<open>
  A value is a primitive or a reference to an object of the store. An object is a cell: its
  own properties by name, and whether it is an array (an array keeps its elements under
  the index names \<open>0\<close>, \<open>1\<close>, ...). Property reads see own properties only; the members an
  object inherits from its prototype and the \<open>length\<close> of an array are outside the model.
\<close>

type_synonym addr = nat

datatype jsval = Undefined | Null | Bool bool | Num jsnum | Str string | Ref addr


record cell =
  is_array :: bool
  props :: "string \<rightharpoonup> jsval"

text \<open>The store: the cells by address, and the next address to hand out. An address is
  never reused, as an object keeps its identity for as long as it lives.\<close>

record heap =
  cells :: "addr \<rightharpoonup> cell"
  next_addr :: addr

datatype error = TypeError

definition alloc :: "heap \<Rightarrow> cell \<Rightarrow> heap \<times> addr" where
  "alloc h c =
     (h\<lparr>cells := (cells h)(next_addr h \<mapsto> c), next_addr := Suc (next_addr h)\<rparr>, next_addr h)"

definition empty_object :: cell where
  "empty_object = \<lparr>is_array = False, props = Map.empty\<rparr>"

text \<open>\<^verbatim>\<open>cur[k]\<close> read: the own property, \<^verbatim>\<open>undefined\<close> when there is none. A read on
  a primitive is \<^verbatim>\<open>undefined\<close> here; the code reads a property only of a value it then
  assigns to, and that assignment throws on every primitive.\<close>

definition get_prop :: "heap \<Rightarrow> addr \<Rightarrow> string \<Rightarrow> jsval" where
  "get_prop h a k =
     (case cells h a of
        None \<Rightarrow> Undefined
      | Some c \<Rightarrow> (case props c k of None \<Rightarrow> Undefined | Some v \<Rightarrow> v))"

definition read :: "heap \<Rightarrow> jsval \<Rightarrow> string \<Rightarrow> jsval" where
  "read h cur k = (case cur of Ref a \<Rightarrow> get_prop h a k | _ \<Rightarrow> Undefined)"

definition set_prop :: "heap \<Rightarrow> addr \<Rightarrow> string \<Rightarrow> jsval \<Rightarrow> heap" where
  "set_prop h a k v =
     (case cells h a of
        None \<Rightarrow> h
      | Some c \<Rightarrow> h\<lparr>cells := (cells h)(a \<mapsto> c\<lparr>props := (props c)(k \<mapsto> v)\<rparr>)\<rparr>)"

text \<open>\<^verbatim>\<open>cur[k] = v\<close> in a module (strict mode): a \<^verbatim>\<open>TypeError\<close> when \<open>cur\<close> is not an
  object. The store at the time of the throw is kept with the error.\<close>

definition assign :: "heap \<Rightarrow> jsval \<Rightarrow> string \<Rightarrow> jsval \<Rightarrow> (error \<times> heap) + heap" where
  "assign h cur k v =
     (case cur of
        Ref a \<Rightarrow> if a \<in> dom (cells h) then Inr (set_prop h a k v) else Inl (TypeError, h)
      | _ \<Rightarrow> Inl (TypeError, h))"

definition nullish :: "jsval \<Rightarrow> bool" where
  "nullish v = (v = Undefined \<or> v = Null)"

text \<open>\<^verbatim>\<open>path.split(".")\<close>: the segments between the dots; never the empty list.\<close>

fun split_dot :: "string \<Rightarrow> string list" where
  "split_dot [] = [[]]"
| "split_dot (c # cs) =
     (if c = CHR ''.'' then [] # split_dot cs
      else (case split_dot cs of [] \<Rightarrow> [[c]] | p # ps \<Rightarrow> (c # p) # ps))"

text \<open>The name of an array index: \<open>0\<close>, or digits that do not start with \<open>0\<close>.\<close>

definition is_index :: "string \<Rightarrow> bool" where
  "is_index k = (k \<noteq> [] \<and> list_all is_digit k \<and> (k = ''0'' \<or> hd k \<noteq> CHR ''0''))"

text \<open>The copy \<^verbatim>\<open>setAt\<close> starts from: \<^verbatim>\<open>[...obj]\<close> for an array, which takes the
  elements and no other property, and \<^verbatim>\<open>{...obj}\<close> otherwise, which takes every own
  property. Both are shallow: a property that is a reference is copied as that reference.\<close>

definition spread :: "cell \<Rightarrow> cell" where
  "spread c =
     (if is_array c
      then \<lparr>is_array = True, props = (\<lambda>k. if is_index k then props c k else None)\<rparr>
      else \<lparr>is_array = False, props = props c\<rparr>)"

text \<open>
  The loop of \<^verbatim>\<open>setAt\<close> over the segments before the last: \<^verbatim>\<open>cur[k] = cur[k] ?? {}\<close>,
  then \<^verbatim>\<open>cur = cur[k]\<close>. The object literal is allocated before the assignment is
  attempted.
\<close>

fun descend :: "heap \<Rightarrow> jsval \<Rightarrow> string list \<Rightarrow> (error \<times> heap) + (heap \<times> jsval)" where
  "descend h cur [] = Inr (h, cur)"
| "descend h cur (k # ks) =
     (let old = read h cur k;
          (h1, v1) = (if nullish old
                      then (let (h', b) = alloc h empty_object in (h', Ref b))
                      else (h, old))
      in case assign h1 cur k v1 of
           Inl e \<Rightarrow> Inl e
         | Inr h2 \<Rightarrow> descend h2 (read h2 cur k) ks)"

text \<open>\<^verbatim>\<open>setAt(obj, path, value)\<close> on the object at address \<open>obj\<close>. The result is the
  store after the call with the address of the returned clone, or the error thrown.\<close>

definition setAt :: "heap \<Rightarrow> addr \<Rightarrow> string \<Rightarrow> jsval \<Rightarrow> (error \<times> heap) + (heap \<times> addr)" where
  "setAt h obj path value =
     (case cells h obj of
        None \<Rightarrow> Inl (TypeError, h)
      | Some c \<Rightarrow>
          (let parts = split_dot path;
               (h0, clone) = alloc h (spread c)
           in case descend h0 (Ref clone) (butlast parts) of
                Inl e \<Rightarrow> Inl e
              | Inr (h1, cur) \<Rightarrow>
                  (case assign h1 cur (last parts) value of
                     Inl e \<Rightarrow> Inl e
                   | Inr h2 \<Rightarrow> Inr (h2, clone))))"

subsection \<open>The document\<close>

definition SECTIONS :: "string list" where
  "SECTIONS =
     [''warp_range'', ''indigo_control'', ''shade_finish'', ''etp'', ''footprints'',
      ''safety'', ''handover'']"

text \<open>The store once the module is loaded: \<^verbatim>\<open>DEFAULT_STATE\<close> at address 0 and its seven
  empty sections at the addresses 1 to 7.\<close>

definition DEFAULT_STATE :: addr where
  "DEFAULT_STATE = 0"

definition module_heap :: heap where
  "module_heap =
     \<lparr>cells =
        [0 \<mapsto> \<lparr>is_array = False,
                props = [''warp_range'' \<mapsto> Ref 1, ''indigo_control'' \<mapsto> Ref 2,
                         ''shade_finish'' \<mapsto> Ref 3, ''etp'' \<mapsto> Ref 4, ''footprints'' \<mapsto> Ref 5,
                         ''safety'' \<mapsto> Ref 6, ''handover'' \<mapsto> Ref 7]\<rparr>,
         1 \<mapsto> empty_object, 2 \<mapsto> empty_object, 3 \<mapsto> empty_object, 4 \<mapsto> empty_object,
         5 \<mapsto> empty_object, 6 \<mapsto> empty_object, 7 \<mapsto> empty_object],
      next_addr = 8\<rparr>"

text \<open>A call that throws or returns.\<close>

datatype 'a outcome = Throws | Returns 'a

text \<open>
  The initial document of the component (the initialiser given to \<^verbatim>\<open>useState\<close>).
  \<open>getItem\<close> is the outcome of \<^verbatim>\<open>localStorage.getItem("denimWizard")\<close>, with \<open>None\<close> for
  \<^verbatim>\<open>null\<close>. \<^verbatim>\<open>JSON.parse\<close> is a parameter: given the store and the text it throws, or
  returns the store with the parsed value in it. An empty text is falsy, as \<^verbatim>\<open>null\<close> is.
\<close>

definition init_state ::
  "(heap \<Rightarrow> string \<Rightarrow> (heap \<times> jsval) outcome) \<Rightarrow> string option outcome \<Rightarrow> heap \<Rightarrow> heap \<times> jsval"
where
  "init_state JSON_parse getItem h =
     (case getItem of
        Throws \<Rightarrow> (h, Ref DEFAULT_STATE)
      | Returns None \<Rightarrow> (h, Ref DEFAULT_STATE)
      | Returns (Some raw) \<Rightarrow>
          if raw = [] then (h, Ref DEFAULT_STATE)
          else (case JSON_parse h raw of
                  Throws \<Rightarrow> (h, Ref DEFAULT_STATE)
                | Returns (h', v) \<Rightarrow> (h', v)))"

text \<open>\<^verbatim>\<open>onSelect\<close>: the next document is \<^verbatim>\<open>setAt(prev, path, value)\<close>.\<close>

definition onSelect :: "heap \<Rightarrow> addr \<Rightarrow> string \<Rightarrow> jsval \<Rightarrow> (error \<times> heap) + (heap \<times> addr)" where
  "onSelect h prev path value = setAt h prev path value"

text \<open>The \<^verbatim>\<open>onChange\<close> of the pH select: \<^verbatim>\<open>onSelect("indigo_control.ph_window", mapPh(v))\<close>.\<close>

definition ph_onChange :: "heap \<Rightarrow> addr \<Rightarrow> string \<Rightarrow> (error \<times> heap) + (heap \<times> addr)" where
  "ph_onChange h prev v = onSelect h prev ''indigo_control.ph_window'' (Str (mapPh v))"

subsection \<open>Notions the properties are stated with\<close>


text \<open>A value is an object that is not an array: a mapping.\<close>

definition is_mapping :: "heap \<Rightarrow> jsval \<Rightarrow> bool" where
  "is_mapping h v =
     (case v of
        Ref a \<Rightarrow> (case cells h a of None \<Rightarrow> False | Some c \<Rightarrow> \<not> is_array c)
      | _ \<Rightarrow> False)"

text \<open>The document at \<open>v\<close> is a mapping with each of the seven sections present as a
  mapping.\<close>

definition has_sections :: "heap \<Rightarrow> jsval \<Rightarrow> bool" where
  "has_sections h v = (is_mapping h v \<and> list_all (\<lambda>s. is_mapping h (read h v s)) SECTIONS)"

text \<open>A store without dangling references: every cell lies below \<open>next_addr\<close>, and every
  reference held in a property is to a cell of the store.\<close>

definition wf_val :: "heap \<Rightarrow> jsval \<Rightarrow> bool" where
  "wf_val h v = (case v of Ref a \<Rightarrow> a \<in> dom (cells h) | _ \<Rightarrow> True)"

definition wf_heap :: "heap \<Rightarrow> bool" where
  "wf_heap h =
     ((\<forall>a. a \<in> dom (cells h) \<longrightarrow> a < next_addr h) \<and>
      (\<forall>a c k v. cells h a = Some c \<longrightarrow> props c k = Some v \<longrightarrow> wf_val h v))"

text \<open>
  Deep equality to a depth: \<open>deep_eq n h1 v h2 w\<close> compares \<open>v\<close> in the store \<open>h1\<close> with \<open>w\<close>
  in the store \<open>h2\<close>, following references \<open>n\<close> levels down. Two objects agree when both are
  arrays or neither is, they have the same property names, and the values under each name
  agree. Two values are deep-equal when they agree to every depth.
\<close>

fun deep_eq :: "nat \<Rightarrow> heap \<Rightarrow> jsval \<Rightarrow> heap \<Rightarrow> jsval \<Rightarrow> bool" where
  "deep_eq 0 h1 v h2 w = True"
| "deep_eq (Suc n) h1 (Ref a) h2 (Ref b) =
     (case (cells h1 a, cells h2 b) of
        (Some c1, Some c2) \<Rightarrow>
          is_array c1 = is_array c2 \<and> dom (props c1) = dom (props c2) \<and>
          (\<forall>k \<in> dom (props c1). deep_eq n h1 (the (props c1 k)) h2 (the (props c2 k)))
      | _ \<Rightarrow> False)"
| "deep_eq (Suc n) h1 v h2 w = (v = w)"

definition deep_equal :: "heap \<Rightarrow> jsval \<Rightarrow> heap \<Rightarrow> jsval \<Rightarrow> bool" where
  "deep_equal h1 v h2 w = (\<forall>n. deep_eq n h1 v h2 w)"

subsection \<open>The component state and the keyboard handler\<close>

text \<open>
  The state the component holds: the step, the document \<^verbatim>\<open>state\<close> (a value of any type
  \<open>'d\<close> here), the three overlay flags, and whether the palette dialog is open (the dialog
  element behind \<^verbatim>\<open>paletteRef\<close>). \<open>storage\<close> is the \<^verbatim>\<open>denimWizard\<close> slot of the local
  storage: the document whose serialisation was written last, if any.
\<close>

record 'd wizard =
  step :: StepKey
  state :: 'd
  advancedOpen :: bool
  openAccordion :: "string option"
  whyOpen :: bool
  paletteOpen :: bool
  storage :: "'d option"

text \<open>A key event as the handler reads it. \<open>is_within\<close> is the value of \<^verbatim>\<open>within\<close>, the result of
  \<^verbatim>\<open>containerRef.current?.contains(target)\<close>. \<open>defaultPrevented\<close> records a call of
  \<^verbatim>\<open>preventDefault\<close>.\<close>

record key_event =
  ekey :: string
  ctrlKey :: bool
  metaKey :: bool
  shiftKey :: bool
  is_within :: bool
  defaultPrevented :: bool

definition toLowerCase :: "string \<Rightarrow> string" where
  "toLowerCase s =
     map (\<lambda>c. if 65 \<le> (of_char c :: nat) \<and> (of_char c :: nat) \<le> 90
               then char_of ((of_char c :: nat) + 32) else c) s"

text \<open>
  \<^verbatim>\<open>onKey\<close>: the handler returns at once when the target is outside the container;
  otherwise its five tests run one after the other. The step the Tab branches read is
  the one the handler closed over, the step of the state it is given.
\<close>

definition onKey :: "key_event \<Rightarrow> 'd wizard \<Rightarrow> key_event \<times> 'd wizard" where
  "onKey e w =
     (if \<not> is_within e then (e, w)
      else
        (let (e1, w1) =
               (if (ctrlKey e \<or> metaKey e) \<and> toLowerCase (ekey e) = ''k''
                then (e\<lparr>defaultPrevented := True\<rparr>, w\<lparr>paletteOpen := True\<rparr>)
                else (e, w));
             (e2, w2) =
               (if (ctrlKey e \<or> metaKey e) \<and> toLowerCase (ekey e) = ''s''
                then (e1\<lparr>defaultPrevented := True\<rparr>, w1\<lparr>storage := Some (state w)\<rparr>)
                else (e1, w1));
             w3 =
               (if ekey e = ''Escape''
                then w2\<lparr>advancedOpen := False, openAccordion := None, whyOpen := False\<rparr>
                else w2);
             (e4, w4) =
               (if ekey e = ''Tab'' \<and> \<not> shiftKey e
                then (e2\<lparr>defaultPrevented := True\<rparr>,
                      (let idx = findIndex (\<lambda>s. key s = step w) STEPS
                       in if idx < int (length STEPS) - 1
                          then w3\<lparr>step := key (STEPS ! nat (idx + 1))\<rparr> else w3))
                else (e2, w3));
             (e5, w5) =
               (if ekey e = ''Tab'' \<and> shiftKey e
                then (e4\<lparr>defaultPrevented := True\<rparr>,
                      (let idx = findIndex (\<lambda>s. key s = step w) STEPS
                       in if idx > 0
                          then w4\<lparr>step := key (STEPS ! nat (idx - 1))\<rparr> else w4))
                else (e4, w4))
         in (e5, w5)))"

subsection \<open>The autosave effect\<close>

text \<open>
  The window's timers: each pending timeout has its identifier, the time at which it is
  due, and the document its callback closed over. \<open>saveTimer\<close> is the \<^verbatim>\<open>saveTimer\<close> ref
  (\<open>None\<close> for \<^verbatim>\<open>null\<close>), \<open>writes\<close> the log of the writes to the storage slot, each with
  the time of the write. Time is counted in whole units (milliseconds), and a timeout
  runs in the unit in which it is due.
\<close>

record 'd timer =
  tid :: nat
  due :: nat
  payload :: 'd

record 'd autosave =
  clock :: nat
  timers :: "'d timer list"
  next_id :: nat
  saveTimer :: "nat option"
  writes :: "(nat \<times> 'd) list"

text \<open>Timer identifiers are positive, so every identifier is truthy in the tests of the
  effect.\<close>

definition autosave_init :: "'d autosave" where
  "autosave_init = \<lparr>clock = 0, timers = [], next_id = 1, saveTimer = None, writes = []\<rparr>"

definition clearTimeout :: "nat \<Rightarrow> 'd autosave \<Rightarrow> 'd autosave" where
  "clearTimeout i s = s\<lparr>timers := filter (\<lambda>t. tid t \<noteq> i) (timers s)\<rparr>"

definition setTimeout :: "'d \<Rightarrow> nat \<Rightarrow> 'd autosave \<Rightarrow> nat \<times> 'd autosave" where
  "setTimeout d delay s =
     (next_id s,
      s\<lparr>timers := timers s @ [\<lparr>tid = next_id s, due = clock s + delay, payload = d\<rparr>],
        next_id := Suc (next_id s)\<rparr>)"

text \<open>\<^verbatim>\<open>if (saveTimer.current) window.clearTimeout(saveTimer.current)\<close>: the test is
  false for \<^verbatim>\<open>null\<close> and for \<open>0\<close>.\<close>

definition clear_saveTimer :: "'d autosave \<Rightarrow> 'd autosave" where
  "clear_saveTimer s =
     (case saveTimer s of
        None \<Rightarrow> s
      | Some i \<Rightarrow> if i \<noteq> 0 then clearTimeout i s else s)"

text \<open>The body of the effect, run with the document \<open>d\<close> of the render, and its cleanup.\<close>

definition effect :: "'d \<Rightarrow> 'd autosave \<Rightarrow> 'd autosave" where
  "effect d s =
     (let s1 = clear_saveTimer s;
          (i, s2) = setTimeout d 500 s1
      in s2\<lparr>saveTimer := Some i\<rparr>)"

definition cleanup :: "'d autosave \<Rightarrow> 'd autosave" where
  "cleanup s = clear_saveTimer s"

text \<open>One unit of time passes: the timeouts that are due run, in the order in which they
  were set, each writing its document to the storage slot.\<close>

definition tick :: "'d autosave \<Rightarrow> 'd autosave" where
  "tick s =
     (let c = Suc (clock s);
          fired = filter (\<lambda>t. due t \<le> c) (timers s)
      in s\<lparr>clock := c,
           timers := filter (\<lambda>t. \<not> due t \<le> c) (timers s),
           writes := writes s @ map (\<lambda>t. (c, payload t)) fired\<rparr>)"

fun advance :: "nat \<Rightarrow> 'd autosave \<Rightarrow> 'd autosave" where
  "advance 0 s = s"
| "advance (Suc n) s = advance n (tick s)"

text \<open>
  What happens to the effect over the life of the component: it runs at mount; when the
  document changes, the cleanup of the previous run is followed by a new run; at unmount
  the cleanup runs. Between these, time passes.
\<close>

datatype 'd event = Mount 'd | Change 'd | Wait nat | Unmount

fun run_event :: "'d event \<Rightarrow> 'd autosave \<Rightarrow> 'd autosave" where
  "run_event (Mount d) s = effect d s"
| "run_event (Change d) s = effect d (cleanup s)"
| "run_event (Wait n) s = advance n s"
| "run_event Unmount s = cleanup s"

definition run :: "'d event list \<Rightarrow> 'd autosave \<Rightarrow> 'd autosave" where
  "run es s = fold run_event es s"

subsection \<open>Auxiliary notions for the proofs about the store\<close>

text \<open>No property of any cell refers to the address \<open>x\<close>.\<close>

definition norefs :: "heap \<Rightarrow> addr \<Rightarrow> bool" where
  "norefs h x = (\<forall>a c k. cells h a = Some c \<longrightarrow> props c k \<noteq> Some (Ref x))"

text \<open>One round of the loop of \<^verbatim>\<open>setAt\<close> at an object \<open>a\<close>, when it goes through: the
  store after the round, and the value the loop goes on with.\<close>

definition step_heap :: "heap \<Rightarrow> addr \<Rightarrow> string \<Rightarrow> heap" where
  "step_heap h a k =
     (if nullish (get_prop h a k)
      then set_prop (fst (alloc h empty_object)) a k (Ref (next_addr h))
      else set_prop h a k (get_prop h a k))"

definition step_val :: "heap \<Rightarrow> addr \<Rightarrow> string \<Rightarrow> jsval" where
  "step_val h a k = (if nullish (get_prop h a k) then Ref (next_addr h) else get_prop h a k)"

text \<open>The autosave state is in order: at most one timeout is pending, the \<^verbatim>\<open>saveTimer\<close> ref
  holds its identifier, and it is due later than now.\<close>

definition sched_inv :: "'d autosave \<Rightarrow> bool" where
  "sched_inv s =
     (length (timers s) \<le> 1 \<and> 0 < next_id s \<and>
      (\<forall>t \<in> set (timers s). saveTimer s = Some (tid t) \<and> tid t \<noteq> 0 \<and> clock s < due t))"

section \<open>Navigation\<close>

lemma findIndex_STEPS:
  "findIndex (\<lambda>s. key s = st) STEPS =
     (case st of Warp \<Rightarrow> 0 | Indigo \<Rightarrow> 1 | Shade \<Rightarrow> 2 | Etp \<Rightarrow> 3
        | Footprints \<Rightarrow> 4 | Safety \<Rightarrow> 5 | Handover \<Rightarrow> 6)"
  by (cases st) (simp_all add: STEPS_def)

lemma next_cases:
  "next st =
     (case st of Warp \<Rightarrow> Indigo | Indigo \<Rightarrow> Shade | Shade \<Rightarrow> Etp | Etp \<Rightarrow> Footprints
        | Footprints \<Rightarrow> Safety | Safety \<Rightarrow> Handover | Handover \<Rightarrow> Handover)"
  unfolding next_def findIndex_STEPS
  by (cases st) (simp_all add: STEPS_def)

lemma back_cases:
  "back st =
     (case st of Warp \<Rightarrow> Warp | Indigo \<Rightarrow> Warp | Shade \<Rightarrow> Indigo | Etp \<Rightarrow> Shade
        | Footprints \<Rightarrow> Etp | Safety \<Rightarrow> Footprints | Handover \<Rightarrow> Safety)"
  unfolding back_def findIndex_STEPS
  by (cases st) (simp_all add: STEPS_def)

text \<open>
  Claim C3, as amended. \<^verbatim>\<open>back\<close> at the first step and \<^verbatim>\<open>next\<close> at the last step leave
  the step as it is, and from every step but the last, \<^verbatim>\<open>next\<close> followed by \<^verbatim>\<open>back\<close>
  returns to the step.
\<close>

theorem navigation_bounds:
  "back Warp = Warp \<and> next Handover = Handover \<and> (\<forall>s. s \<noteq> Handover \<longrightarrow> back (next s) = s)"
proof (intro conjI allI impI)
  show "back Warp = Warp" by (simp add: back_cases)
  show "next Handover = Handover" by (simp add: next_cases)
  fix s assume "s \<noteq> Handover"
  then show "back (next s) = s" by (cases s) (simp_all add: back_cases next_cases)
qed

theorem navigation_bounds_witness:
  "Indigo \<noteq> Handover \<and> back (next Indigo) = Indigo"
  using navigation_bounds by simp

text \<open>At the last step \<^verbatim>\<open>next\<close> stays and \<^verbatim>\<open>back\<close> then leaves it: the round trip of
  claim C3 fails there.\<close>

theorem next_back_last_step: "back (next Handover) = Safety \<and> back (next Handover) \<noteq> Handover"
  by (simp add: back_cases next_cases)

text \<open>The Tab key inside the container moves as \<^verbatim>\<open>next\<close> does, and as \<^verbatim>\<open>back\<close> with
  Shift held; both prevent the default action.\<close>

lemma onKey_Tab:
  assumes "ekey e = ''Tab''" "is_within e"
  shows "step (snd (onKey e w)) = (if shiftKey e then back (step w) else next (step w))"
    and "defaultPrevented (fst (onKey e w))"
  using assms by (simp_all add: onKey_def toLowerCase_def next_def back_def Let_def)

section \<open>The store\<close>

lemma alloc_simps:
  "cells (fst (alloc h c)) = (cells h)(next_addr h \<mapsto> c)"
  "next_addr (fst (alloc h c)) = Suc (next_addr h)"
  "snd (alloc h c) = next_addr h"
  by (simp_all add: alloc_def)

lemma set_prop_next: "next_addr (set_prop h a k v) = next_addr h"
  by (simp add: set_prop_def split: option.splits)

lemma set_prop_cells:
  "cells (set_prop h a k v) x =
     (if x = a then map_option (\<lambda>c. c\<lparr>props := (props c)(k \<mapsto> v)\<rparr>) (cells h a) else cells h x)"
  by (simp add: set_prop_def split: option.splits)

lemma set_prop_dom: "dom (cells (set_prop h a k v)) = dom (cells h)"
  by (auto simp: set_prop_cells dom_def)

lemma wf_val_simps:
  "wf_val h (Ref a) = (a \<in> dom (cells h))"
  "wf_val h Undefined" "wf_val h Null" "wf_val h (Bool b)" "wf_val h (Num n)" "wf_val h (Str s)"
  by (simp_all add: wf_val_def)

lemma wf_val_get_prop: "wf_heap h \<Longrightarrow> wf_val h (get_prop h a k)"
  by (auto simp: wf_heap_def get_prop_def wf_val_simps split: option.splits)

lemma wf_val_mono: "wf_val h v \<Longrightarrow> dom (cells h) \<subseteq> dom (cells h') \<Longrightarrow> wf_val h' v"
  by (cases v) (auto simp: wf_val_simps)

lemma wf_heap_lt: "wf_heap h \<Longrightarrow> cells h a = Some c \<Longrightarrow> a < next_addr h"
  by (auto simp: wf_heap_def)

lemma wf_alloc:
  assumes "wf_heap h" "\<And>k v. props c k = Some v \<Longrightarrow> wf_val h v"
  shows "wf_heap (fst (alloc h c))"
proof -
  have m: "\<And>v. wf_val h v \<Longrightarrow> wf_val (fst (alloc h c)) v"
    by (rule wf_val_mono) (auto simp: alloc_simps)
  show ?thesis
    unfolding wf_heap_def
  proof (intro conjI allI impI)
    fix a assume "a \<in> dom (cells (fst (alloc h c)))"
    then show "a < next_addr (fst (alloc h c))"
      using assms(1) by (auto simp: alloc_simps wf_heap_def less_Suc_eq split: if_splits)
  next
    fix a c' k v
    assume "cells (fst (alloc h c)) a = Some c'" "props c' k = Some v"
    then have "wf_val h v"
      using assms by (auto simp: alloc_simps wf_heap_def split: if_splits)
    then show "wf_val (fst (alloc h c)) v" by (rule m)
  qed
qed

lemma wf_set_prop:
  assumes "wf_heap h" "wf_val h v"
  shows "wf_heap (set_prop h a k v)"
proof -
  have m: "\<And>w. wf_val h w \<Longrightarrow> wf_val (set_prop h a k v) w"
    by (rule wf_val_mono) (auto simp: set_prop_dom)
  show ?thesis
    unfolding wf_heap_def
  proof (intro conjI allI impI)
    fix b assume "b \<in> dom (cells (set_prop h a k v))"
    then show "b < next_addr (set_prop h a k v)"
      using assms(1) by (simp add: set_prop_dom set_prop_next wf_heap_def)
  next
    fix b c' k' w
    assume "cells (set_prop h a k v) b = Some c'" "props c' k' = Some w"
    then have "wf_val h w"
      using assms by (auto simp: set_prop_cells wf_heap_def split: if_splits)
    then show "wf_val (set_prop h a k v) w" by (rule m)
  qed
qed

lemma step_wf:
  assumes "wf_heap h"
  shows "wf_heap (step_heap h a k)"
proof (cases "nullish (get_prop h a k)")
  case True
  have "wf_heap (fst (alloc h empty_object))"
    using assms by (rule wf_alloc) (simp add: empty_object_def)
  then have "wf_heap (set_prop (fst (alloc h empty_object)) a k (Ref (next_addr h)))"
    by (rule wf_set_prop) (simp add: wf_val_simps alloc_simps)
  with True show ?thesis by (simp add: step_heap_def)
next
  case False
  have "wf_heap (set_prop h a k (get_prop h a k))"
    using assms wf_val_get_prop[OF assms] by (rule wf_set_prop)
  with False show ?thesis by (simp add: step_heap_def)
qed

lemma step_dom:
  "dom (cells (step_heap h a k)) =
     (if nullish (get_prop h a k) then insert (next_addr h) (dom (cells h)) else dom (cells h))"
  by (simp add: step_heap_def set_prop_dom alloc_simps)

lemma step_next:
  "next_addr (step_heap h a k) =
     (if nullish (get_prop h a k) then Suc (next_addr h) else next_addr h)"
  by (simp add: step_heap_def set_prop_next alloc_simps)

lemma step_val_wf:
  assumes "wf_heap h"
  shows "wf_val (step_heap h a k) (step_val h a k)"
proof (cases "nullish (get_prop h a k)")
  case True
  then show ?thesis by (simp add: step_val_def wf_val_simps step_dom)
next
  case False
  have "wf_val (step_heap h a k) (get_prop h a k)"
    using wf_val_get_prop[OF assms] by (rule wf_val_mono) (auto simp: step_dom)
  with False show ?thesis by (simp add: step_val_def)
qed


lemma get_set_prop_same:
  "a \<in> dom (cells h) \<Longrightarrow> get_prop (set_prop h a k v) a k = v"
  by (auto simp: get_prop_def set_prop_cells)

lemma descend_Cons:
  assumes "a \<in> dom (cells h)"
  shows "descend h (Ref a) (k # ks) = descend (step_heap h a k) (step_val h a k) ks"
  using assms
  by (auto simp: step_heap_def step_val_def assign_def read_def alloc_simps get_set_prop_same
        alloc_def Let_def split: prod.splits)

lemma descend_Inr_Ref:
  "descend h cur (k # ks) = Inr r \<Longrightarrow> \<exists>a. cur = Ref a"
  by (cases cur) (auto simp: assign_def Let_def split: prod.splits)



lemma step_kind:
  assumes "wf_heap h" "cells h x = Some c"
  shows "\<exists>c'. cells (step_heap h a k) x = Some c' \<and> is_array c' = is_array c"
proof -
  have "x \<noteq> next_addr h" using wf_heap_lt[OF assms] by simp
  then show ?thesis
    using assms(2) by (auto simp: step_heap_def set_prop_cells alloc_simps)
qed

lemma step_frame:
  "x \<noteq> a \<Longrightarrow> x \<noteq> next_addr h \<Longrightarrow> cells (step_heap h a k) x = cells h x"
  by (simp add: step_heap_def set_prop_cells alloc_simps)

lemma step_root:
  "cells h a = Some c \<Longrightarrow> a \<noteq> next_addr h \<Longrightarrow>
   cells (step_heap h a k) a = Some (c\<lparr>props := (props c)(k \<mapsto> step_val h a k)\<rparr>)"
  by (simp add: step_heap_def step_val_def set_prop_cells alloc_simps)

lemma norefs_set_prop:
  "norefs h x \<Longrightarrow> v \<noteq> Ref x \<Longrightarrow> norefs (set_prop h a k v) x"
  unfolding norefs_def by (auto simp: set_prop_cells split: if_splits)

lemma norefs_alloc:
  "norefs h x \<Longrightarrow> (\<And>k. props c k \<noteq> Some (Ref x)) \<Longrightarrow> norefs (fst (alloc h c)) x"
  unfolding norefs_def by (auto simp: alloc_simps split: if_splits)

lemma norefs_get_prop: "norefs h x \<Longrightarrow> get_prop h a k \<noteq> Ref x"
  unfolding norefs_def by (auto simp: get_prop_def split: option.splits)

lemma step_val_noref: "norefs h x \<Longrightarrow> x \<noteq> next_addr h \<Longrightarrow> step_val h a k \<noteq> Ref x"
  by (simp add: step_val_def norefs_get_prop)

lemma step_norefs:
  assumes "norefs h x" "x \<noteq> next_addr h"
  shows "norefs (step_heap h a k) x"
proof (cases "nullish (get_prop h a k)")
  case True
  have "norefs (fst (alloc h empty_object)) x"
    using assms(1) by (rule norefs_alloc) (simp add: empty_object_def)
  then have "norefs (set_prop (fst (alloc h empty_object)) a k (Ref (next_addr h))) x"
    by (rule norefs_set_prop) (use assms(2) in simp)
  with True show ?thesis by (simp add: step_heap_def)
next
  case False
  have "norefs (set_prop h a k (get_prop h a k)) x"
    using assms(1) norefs_get_prop[OF assms(1)] by (rule norefs_set_prop)
  with False show ?thesis by (simp add: step_heap_def)
qed

text \<open>A cell that nothing refers to and that is not where the loop starts is left as it is.\<close>

lemma descend_frame:
  "descend h cur ks = Inr (h', cur') \<Longrightarrow> wf_heap h \<Longrightarrow> wf_val h cur \<Longrightarrow> cur \<noteq> Ref x \<Longrightarrow>
   norefs h x \<Longrightarrow> x < next_addr h \<Longrightarrow>
   cells h' x = cells h x \<and> norefs h' x \<and> cur' \<noteq> Ref x"
proof (induction ks arbitrary: h cur)
  case Nil
  then show ?case by simp
next
  case (Cons k ks)
  from Cons.prems(1) obtain a where a: "cur = Ref a" using descend_Inr_Ref by blast
  with Cons.prems(3) have d: "a \<in> dom (cells h)" by (simp add: wf_val_simps)
  from a Cons.prems(4) have ax: "x \<noteq> a" by simp
  from Cons.prems(6) have xn: "x \<noteq> next_addr h" by simp
  have st: "descend (step_heap h a k) (step_val h a k) ks = Inr (h', cur')"
    using Cons.prems(1) a descend_Cons[OF d, of k ks] by (simp del: descend.simps)
  have lt: "x < next_addr (step_heap h a k)"
    using Cons.prems(6) by (simp add: step_next)
  have "cells h' x = cells (step_heap h a k) x \<and> norefs h' x \<and> cur' \<noteq> Ref x"
    using st step_wf[OF Cons.prems(2)] step_val_wf[OF Cons.prems(2)]
      step_val_noref[OF Cons.prems(5) xn] step_norefs[OF Cons.prems(5) xn] lt
    by (rule Cons.IH)
  then show ?case by (simp add: step_frame[OF ax xn])
qed

lemma descend_kind:
  "descend h cur ks = Inr (h', cur') \<Longrightarrow> wf_heap h \<Longrightarrow> wf_val h cur \<Longrightarrow> cells h x = Some c \<Longrightarrow>
   \<exists>c'. cells h' x = Some c' \<and> is_array c' = is_array c"
proof (induction ks arbitrary: h cur c)
  case Nil
  then show ?case by simp
next
  case (Cons k ks)
  from Cons.prems(1) obtain a where a: "cur = Ref a" using descend_Inr_Ref by blast
  with Cons.prems(3) have d: "a \<in> dom (cells h)" by (simp add: wf_val_simps)
  have st: "descend (step_heap h a k) (step_val h a k) ks = Inr (h', cur')"
    using Cons.prems(1) a descend_Cons[OF d, of k ks] by (simp del: descend.simps)
  obtain c1 where c1: "cells (step_heap h a k) x = Some c1" "is_array c1 = is_array c"
    using step_kind[OF Cons.prems(2) Cons.prems(4)] by blast
  have "\<exists>c'. cells h' x = Some c' \<and> is_array c' = is_array c1"
    using st step_wf[OF Cons.prems(2)] step_val_wf[OF Cons.prems(2)] c1(1) by (rule Cons.IH)
  with c1(2) show ?case by simp
qed

text \<open>The cell the loop starts from, when nothing refers to it: only the first segment's
  property is written.\<close>

lemma descend_root:
  assumes "descend h (Ref a) (k # ks) = Inr (h', cur')" "wf_heap h" "cells h a = Some c"
    "norefs h a"
  shows "cells h' a = Some (c\<lparr>props := (props c)(k \<mapsto> step_val h a k)\<rparr>)"
    "norefs h' a" "cur' \<noteq> Ref a"
proof -
  have lt: "a < next_addr h" using assms(2,3) by (rule wf_heap_lt)
  then have an: "a \<noteq> next_addr h" by simp
  have st: "descend (step_heap h a k) (step_val h a k) ks = Inr (h', cur')"
    using assms(1) descend_Cons[of a h k ks] assms(3) by (simp del: descend.simps add: domI)
  have lt': "a < next_addr (step_heap h a k)" using lt by (simp add: step_next)
  have "cells h' a = cells (step_heap h a k) a \<and> norefs h' a \<and> cur' \<noteq> Ref a"
    using st step_wf[OF assms(2)] step_val_wf[OF assms(2)] step_val_noref[OF assms(4) an]
      step_norefs[OF assms(4) an] lt'
    by (rule descend_frame)
  then show "cells h' a = Some (c\<lparr>props := (props c)(k \<mapsto> step_val h a k)\<rparr>)"
    "norefs h' a" "cur' \<noteq> Ref a"
    by (simp_all add: step_root[OF assms(3) an])
qed

lemma split_dot_nonempty: "split_dot s \<noteq> []"
  by (induction s) (auto split: list.splits)

lemma spread_kind: "is_array (spread c) = is_array c"
  by (simp add: spread_def)

lemma spread_mapping: "\<not> is_array c \<Longrightarrow> spread c = c"
  by (simp add: spread_def)

lemma spread_props: "props (spread c) k = Some v \<Longrightarrow> props c k = Some v"
  by (auto simp: spread_def split: if_splits)

lemma assign_Inr:
  "assign h cur k v = Inr h' \<Longrightarrow> \<exists>a. cur = Ref a \<and> a \<in> dom (cells h) \<and> h' = set_prop h a k v"
  by (cases cur) (auto simp: assign_def split: if_splits)

text \<open>What a call of \<^verbatim>\<open>setAt\<close> that returns has done.\<close>

lemma setAt_Inr:
  assumes "setAt h d path v = Inr (h', d')"
  obtains c h1 a where "cells h d = Some c" "d' = next_addr h"
    "descend (fst (alloc h (spread c))) (Ref (next_addr h)) (butlast (split_dot path)) = Inr (h1, Ref a)"
    "a \<in> dom (cells h1)" "h' = set_prop h1 a (last (split_dot path)) v"
proof -
  from assms obtain c where c: "cells h d = Some c"
    by (auto simp: setAt_def split: option.splits)
  from assms c obtain h1 cur where
    d: "descend (fst (alloc h (spread c))) (Ref (next_addr h)) (butlast (split_dot path)) = Inr (h1, cur)"
    and a: "assign h1 cur (last (split_dot path)) v = Inr h'" and d': "d' = next_addr h"
    by (auto simp: setAt_def alloc_def Let_def split: sum.splits prod.splits)
  from assign_Inr[OF a] obtain a where "cur = Ref a" "a \<in> dom (cells h1)"
    "h' = set_prop h1 a (last (split_dot path)) v" by blast
  with c d d' show ?thesis using that by blast
qed

lemma wf_alloc_spread:
  assumes "wf_heap h" "cells h d = Some c"
  shows "wf_heap (fst (alloc h (spread c)))"
  using assms(1)
proof (rule wf_alloc)
  fix k v assume "props (spread c) k = Some v"
  then have "props c k = Some v" by (rule spread_props)
  with assms show "wf_val h v" by (auto simp: wf_heap_def)
qed

lemma norefs_fresh: "wf_heap h \<Longrightarrow> next_addr h \<le> x \<Longrightarrow> norefs h x"
  unfolding norefs_def wf_heap_def wf_val_def
  by (fastforce split: jsval.splits)

lemma norefs_alloc_spread:
  assumes "norefs h x" "cells h d = Some c"
  shows "norefs (fst (alloc h (spread c))) x"
  using assms(1)
proof (rule norefs_alloc)
  fix k show "props (spread c) k \<noteq> Some (Ref x)"
    using assms spread_props[of c k "Ref x"] by (auto simp: norefs_def)
qed

text \<open>The clone \<^verbatim>\<open>setAt\<close> returns: the copy of the object, with the property of the first
  segment written.\<close>

lemma setAt_root:
  assumes "setAt h d path v = Inr (h', d')" "wf_heap h" "cells h d = Some c"
  shows "d' = next_addr h"
    "\<exists>w. cells h' d' = Some ((spread c)\<lparr>props := (props (spread c))(hd (split_dot path) \<mapsto> w)\<rparr>) \<and>
         (if length (split_dot path) = 1 then w = v
          else w = step_val (fst (alloc h (spread c))) (next_addr h) (hd (split_dot path)))"
proof -
  let ?h0 = "fst (alloc h (spread c))" and ?r = "next_addr h" and ?ps = "split_dot path"
  from assms(1) obtain c' h1 a where o: "cells h d = Some c'" "d' = ?r"
    "descend (fst (alloc h (spread c'))) (Ref ?r) (butlast ?ps) = Inr (h1, Ref a)"
    "a \<in> dom (cells h1)" "h' = set_prop h1 a (last ?ps) v"
    by (rule setAt_Inr)
  from o(1) assms(3) have cc: "c' = c" by simp
  show "d' = ?r" by (rule o(2))
  have wf0: "wf_heap ?h0" using assms(2,3) by (rule wf_alloc_spread)
  have c0: "cells ?h0 ?r = Some (spread c)" by (simp add: alloc_simps)
  have nr0: "norefs ?h0 ?r"
    using norefs_fresh[OF assms(2), of ?r] assms(3) by (simp add: norefs_alloc_spread)
  have ne: "?ps \<noteq> []" by (rule split_dot_nonempty)
  show "\<exists>w. cells h' d' = Some ((spread c)\<lparr>props := (props (spread c))(hd ?ps \<mapsto> w)\<rparr>) \<and>
         (if length ?ps = 1 then w = v else w = step_val ?h0 ?r (hd ?ps))"
  proof (cases "butlast ?ps")
    case Nil
    with ne have one: "?ps = [last ?ps]"
      by (metis append_butlast_last_id append_Nil)
    then have l1: "length ?ps = 1" "hd ?ps = last ?ps"
      by (metis length_Cons list.size(3) One_nat_def, metis list.sel(1))
    from o(3) Nil cc have "h1 = ?h0" "a = ?r" by simp_all
    with o(5) o(2) c0 have "cells h' d' = Some ((spread c)\<lparr>props := (props (spread c))(last ?ps \<mapsto> v)\<rparr>)"
      by (simp add: set_prop_cells)
    with l1 show ?thesis by simp
  next
    case (Cons k ks)
    with ne have hdk: "hd ?ps = k" "length ?ps \<noteq> 1"
      by (metis append_butlast_last_id hd_append2 list.sel(1) list.distinct(1),
          metis One_nat_def length_butlast list.distinct(1) length_0_conv diff_self_eq_0)
    from o(3) Cons cc have ds: "descend ?h0 (Ref ?r) (k # ks) = Inr (h1, Ref a)" by simp
    have r1: "cells h1 ?r = Some ((spread c)\<lparr>props := (props (spread c))(k \<mapsto> step_val ?h0 ?r k)\<rparr>)"
      and ar: "Ref a \<noteq> Ref ?r"
      using descend_root[OF ds wf0 c0 nr0] by simp_all
    from ar o(5) o(2) r1 have "cells h' d' = Some ((spread c)\<lparr>props := (props (spread c))(k \<mapsto> step_val ?h0 ?r k)\<rparr>)"
      by (simp add: set_prop_cells)
    with hdk show ?thesis by simp
  qed
qed


lemma set_prop_kind:
  "cells h x = Some c \<Longrightarrow> \<exists>c'. cells (set_prop h a k v) x = Some c' \<and> is_array c' = is_array c"
  by (auto simp: set_prop_cells)


lemma setAt_kind:
  assumes "setAt h d path v = Inr (h', d')" "wf_heap h" "cells h x = Some cx"
  shows "\<exists>cx'. cells h' x = Some cx' \<and> is_array cx' = is_array cx"
proof -
  let ?r = "next_addr h" and ?ps = "split_dot path"
  from assms(1) obtain c h1 a where o: "cells h d = Some c" "d' = ?r"
    "descend (fst (alloc h (spread c))) (Ref ?r) (butlast ?ps) = Inr (h1, Ref a)"
    "a \<in> dom (cells h1)" "h' = set_prop h1 a (last ?ps) v"
    by (rule setAt_Inr)
  let ?h0 = "fst (alloc h (spread c))"
  have wf0: "wf_heap ?h0" using assms(2) o(1) by (rule wf_alloc_spread)
  have v0: "wf_val ?h0 (Ref ?r)" by (simp add: wf_val_simps alloc_simps)
  have "x \<noteq> ?r" using wf_heap_lt[OF assms(2,3)] by simp
  then have "cells ?h0 x = Some cx" using assms(3) by (simp add: alloc_simps)
  with o(3) wf0 v0 obtain c1 where "cells h1 x = Some c1" "is_array c1 = is_array cx"
    using descend_kind by blast
  then show ?thesis unfolding o(5) using set_prop_kind[of h1 x c1 a] by auto
qed


lemma split_dot_append:
  "CHR ''.'' \<notin> set s \<Longrightarrow> split_dot (s @ CHR ''.'' # t) = s # split_dot t"
  by (induction s) (auto split: list.splits)

lemma split_dot_nodot: "CHR ''.'' \<notin> set s \<Longrightarrow> split_dot s = [s]"
  by (induction s) (auto split: list.splits)

lemma SECTIONS_nodot: "s \<in> set SECTIONS \<Longrightarrow> CHR ''.'' \<notin> set s"
  by (auto simp: SECTIONS_def)

lemma is_mapping_Ref: "is_mapping h (Ref a) = (\<exists>c. cells h a = Some c \<and> \<not> is_array c)"
  by (auto simp: is_mapping_def split: option.splits)

lemma is_mappingE:
  assumes "is_mapping h v"
  obtains a c where "v = Ref a" "cells h a = Some c" "\<not> is_array c"
  using assms by (cases v) (auto simp: is_mapping_def split: option.splits)

lemma read_Ref: "read h (Ref a) k = get_prop h a k"
  by (simp add: read_def)

lemma get_prop_cell: "cells h a = Some c \<Longrightarrow> get_prop h a k = (case props c k of None \<Rightarrow> Undefined | Some v \<Rightarrow> v)"
  by (simp add: get_prop_def)

lemma wf_module_heap: "wf_heap module_heap"
  unfolding wf_heap_def module_heap_def
  by (auto simp: wf_val_simps empty_object_def split: if_splits)

lemma has_sections_module_heap: "has_sections module_heap (Ref DEFAULT_STATE)"
  by (simp add: has_sections_def is_mapping_def read_def get_prop_def module_heap_def
      DEFAULT_STATE_def SECTIONS_def empty_object_def)

lemma has_sectionsD:
  assumes "has_sections h (Ref d)" "s \<in> set SECTIONS"
  shows "is_mapping h (Ref d)" "is_mapping h (get_prop h d s)"
  using assms by (auto simp: has_sections_def list_all_iff read_Ref)

text \<open>On a document with its sections, a path of a section and a field returns.\<close>

lemma setAt_section_returns:
  assumes "wf_heap h" "has_sections h (Ref d)" "s \<in> set SECTIONS" "CHR ''.'' \<notin> set f"
  shows "\<exists>h' d'. setAt h d (s @ ''.'' @ f) v = Inr (h', d')"
proof -
  from has_sectionsD[OF assms(2,3)] obtain c a ca where
    c: "cells h d = Some c" "\<not> is_array c" and a: "get_prop h d s = Ref a" "cells h a = Some ca"
    by (auto simp: is_mapping_Ref elim: is_mappingE)
  let ?h0 = "fst (alloc h (spread c))" and ?r = "next_addr h"
  have ps: "split_dot (s @ CHR ''.'' # f) = [s, f]"
    using SECTIONS_nodot[OF assms(3)] assms(4) by (simp add: split_dot_append split_dot_nodot)
  have ar: "a \<noteq> ?r" using wf_heap_lt[OF assms(1) a(2)] by simp
  have g0: "get_prop ?h0 ?r s = Ref a"
    using a(1) c by (simp add: get_prop_def alloc_simps spread_mapping)
  have sv: "step_val ?h0 ?r s = Ref a" by (simp add: step_val_def g0 nullish_def)
  have "a \<in> dom (cells (step_heap ?h0 ?r s))"
    using a(2) ar by (auto simp: step_dom alloc_simps)
  then have "assign (step_heap ?h0 ?r s) (Ref a) f v = Inr (set_prop (step_heap ?h0 ?r s) a f v)"
    by (simp add: assign_def)
  moreover have "descend ?h0 (Ref ?r) [s] = Inr (step_heap ?h0 ?r s, Ref a)"
    using descend_Cons[of ?r ?h0 s "[]"] sv by (simp del: descend.simps(2) add: alloc_simps)
  ultimately show ?thesis
    using c(1) ps by (simp add: setAt_def alloc_def del: descend.simps)
qed

text \<open>After a call on a path of two segments, the value is read back along the path.\<close>

lemma setAt_two_read:
  assumes "wf_heap h" "setAt h d (s @ ''.'' @ f) v = Inr (h', d')"
    "CHR ''.'' \<notin> set s" "CHR ''.'' \<notin> set f"
  shows "read h' (read h' (Ref d') s) f = v"
proof -
  have ps: "split_dot (s @ CHR ''.'' # f) = [s, f]"
    using assms(3,4) by (simp add: split_dot_append split_dot_nodot)
  from assms(2) obtain c h1 a where o': "cells h d = Some c" "d' = next_addr h"
    "descend (fst (alloc h (spread c))) (Ref (next_addr h))
       (butlast (split_dot (s @ ''.'' @ f))) = Inr (h1, Ref a)"
    "a \<in> dom (cells h1)" "h' = set_prop h1 a (last (split_dot (s @ ''.'' @ f))) v"
    by (rule setAt_Inr)
  have o: "cells h d = Some c" "d' = next_addr h"
    "descend (fst (alloc h (spread c))) (Ref (next_addr h)) [s] = Inr (h1, Ref a)"
    "a \<in> dom (cells h1)" "h' = set_prop h1 a f v"
    using o' by (simp_all add: ps del: descend.simps)
  let ?h0 = "fst (alloc h (spread c))" and ?r = "next_addr h"
  have wf0: "wf_heap ?h0" using assms(1) o(1) by (rule wf_alloc_spread)
  have c0: "cells ?h0 ?r = Some (spread c)" by (simp add: alloc_simps)
  have nr0: "norefs ?h0 ?r"
    using norefs_fresh[OF assms(1), of ?r] o(1) by (simp add: norefs_alloc_spread)
  have "descend ?h0 (Ref ?r) [s] = Inr (step_heap ?h0 ?r s, step_val ?h0 ?r s)"
    using descend_Cons[of ?r ?h0 s "[]"] by (simp del: descend.simps(2) add: alloc_simps)
  with o(3) have sv: "step_val ?h0 ?r s = Ref a" by simp
  from descend_root[OF o(3) wf0 c0 nr0] sv
  have r1: "cells h1 ?r = Some ((spread c)\<lparr>props := (props (spread c))(s \<mapsto> Ref a)\<rparr>)"
    and ar: "a \<noteq> ?r" by simp_all
  have "read h' (Ref d') s = Ref a"
    using r1 ar by (simp add: o(2,5) read_Ref get_prop_def set_prop_cells)
  moreover have "read h' (Ref a) f = v"
    using o(4) by (simp add: o(5) read_Ref get_set_prop_same)
  ultimately show ?thesis by simp
qed




text \<open>The sections of a document are kept by a call, unless the path is the bare name of a
  section and the value is not a mapping.\<close>

lemma setAt_has_sections:
  assumes "wf_heap h" "has_sections h (Ref d)" "setAt h d path v = Inr (h', d')"
    "length (split_dot path) = 1 \<and> hd (split_dot path) \<in> set SECTIONS \<longrightarrow> is_mapping h v"
  shows "has_sections h' (Ref d')"
proof -
  let ?k = "hd (split_dot path)"
  from assms(2) obtain c where c: "cells h d = Some c" "\<not> is_array c"
    by (auto simp: has_sections_def is_mapping_Ref)
  from setAt_root[OF assms(3,1) c(1)] c(2) obtain w where
    c': "cells h' d' = Some (c\<lparr>props := (props c)(?k \<mapsto> w)\<rparr>)"
    and w: "if length (split_dot path) = 1 then w = v
            else w = step_val (fst (alloc h (spread c))) (next_addr h) ?k"
    by (auto simp: spread_mapping)
  have keep: "is_mapping h' u" if "is_mapping h u" for u
  proof -
    from that obtain a ca where "u = Ref a" "cells h a = Some ca" "\<not> is_array ca"
      by (rule is_mappingE)
    with setAt_kind[OF assms(3,1), of a ca] show ?thesis by (auto simp: is_mapping_Ref)
  qed
  have "is_mapping h' (read h' (Ref d') s)" if s: "s \<in> set SECTIONS" for s
  proof (cases "s = ?k")
    case False
    with c' c(1) have "read h' (Ref d') s = get_prop h d s"
      by (simp add: read_Ref get_prop_cell)
    with has_sectionsD(2)[OF assms(2) s] keep show ?thesis by simp
  next
    case True
    with c' have r: "read h' (Ref d') s = w" by (simp add: read_Ref get_prop_cell)
    show ?thesis
    proof (cases "length (split_dot path) = 1")
      case True
      with w assms(4) s \<open>s = ?k\<close> have "is_mapping h w" by simp
      with r keep show ?thesis by simp
    next
      case False
      from has_sectionsD(2)[OF assms(2) s] obtain a ca where
        a: "get_prop h d s = Ref a" "cells h a = Some ca" "\<not> is_array ca"
        by (rule is_mappingE)
      have "get_prop (fst (alloc h (spread c))) (next_addr h) ?k = Ref a"
        using a(1) c \<open>s = ?k\<close> by (simp add: get_prop_def alloc_simps spread_mapping)
      with w False have "w = get_prop h d s" by (simp add: step_val_def nullish_def a(1))
      with r has_sectionsD(2)[OF assms(2) s] keep show ?thesis by simp
    qed
  qed
  moreover have "is_mapping h' (Ref d')" using c' c(2) by (simp add: is_mapping_Ref)
  ultimately show ?thesis by (simp add: has_sections_def list_all_iff)
qed

text \<open>
  What the missing copy per level means for a path of a section and a field: the section
  of the returned document is the section object of the document given, and the value is
  written into that object, so it is read through the old document as well.
\<close>

lemma setAt_writes_through:
  assumes "wf_heap h" "has_sections h (Ref d)" "s \<in> set SECTIONS" "CHR ''.'' \<notin> set f"
    "setAt h d (s @ ''.'' @ f) v = Inr (h', d')"
  shows "read h' (Ref d') s = read h (Ref d) s" "read h' (read h (Ref d) s) f = v"
proof -
  from has_sectionsD[OF assms(2,3)] obtain c a ca where
    c: "cells h d = Some c" "\<not> is_array c" and a: "get_prop h d s = Ref a" "cells h a = Some ca"
    by (auto simp: is_mapping_Ref elim: is_mappingE)
  have nd: "CHR ''.'' \<notin> set s" using assms(3) by (rule SECTIONS_nodot)
  have ps: "split_dot (s @ CHR ''.'' # f) = [s, f]"
    using nd assms(4) by (simp add: split_dot_append split_dot_nodot)
  have g0: "get_prop (fst (alloc h (spread c))) (next_addr h) s = Ref a"
    using a(1) c by (simp add: get_prop_def alloc_simps spread_mapping)
  from setAt_root(2)[OF assms(5,1) c(1)] obtain w where
    "cells h' d' = Some ((spread c)\<lparr>props := (props (spread c))(s \<mapsto> w)\<rparr>)"
    "w = step_val (fst (alloc h (spread c))) (next_addr h) s"
    by (auto simp: ps)
  then have "read h' (Ref d') s = Ref a"
    by (simp add: read_Ref get_prop_cell step_val_def g0 nullish_def)
  then show 1: "read h' (Ref d') s = read h (Ref d) s" by (simp add: read_Ref a(1))
  have "read h' (read h' (Ref d') s) f = v"
    using assms(1,5) nd assms(4) by (rule setAt_two_read)
  then show "read h' (read h (Ref d) s) f = v" by (simp add: 1)
qed

lemmas heap_eval = setAt_def module_heap_def DEFAULT_STATE_def alloc_def spread_def assign_def
  read_def get_prop_def set_prop_def nullish_def empty_object_def Let_def

section \<open>Claims about the path-addressed update\<close>

lemma setAt_default_mode:
  "(case setAt module_heap DEFAULT_STATE ''warp_range.mode'' (Str ''rope'') of
      Inl e \<Rightarrow> False
    | Inr (h', d') \<Rightarrow>
        read module_heap (read module_heap (Ref DEFAULT_STATE) ''warp_range'') ''mode'' = Undefined \<and>
        read h' (read h' (Ref DEFAULT_STATE) ''warp_range'') ''mode'' = Str ''rope'' \<and>
        read h' (Ref d') ''warp_range'' = read h' (Ref DEFAULT_STATE) ''warp_range'' \<and>
        \<not> deep_eq 2 module_heap (Ref DEFAULT_STATE) h' (Ref DEFAULT_STATE))"
  by (simp add: heap_eval numeral_2_eq_2)

text \<open>
  Claim C1 fails on the code. \<^verbatim>\<open>setAt\<close> copies the root only: the loop descends into the
  section object of the document it was given, and the last assignment writes into it. On
  the default document, path \<open>warp_range.mode\<close> and value \<open>rope\<close>: before the call the
  document has no \<open>mode\<close> in its \<open>warp_range\<close>, after the call it has \<open>rope\<close> there; the
  section of the returned document is the very object of the old one; and the old document
  is no longer deep-equal to what it was.
\<close>

theorem setAt_mutates_original:
  "(case setAt module_heap DEFAULT_STATE ''warp_range.mode'' (Str ''rope'') of
      Inl e \<Rightarrow> False
    | Inr (h', d') \<Rightarrow>
        read module_heap (read module_heap (Ref DEFAULT_STATE) ''warp_range'') ''mode'' = Undefined \<and>
        read h' (read h' (Ref DEFAULT_STATE) ''warp_range'') ''mode'' = Str ''rope'' \<and>
        read h' (Ref d') ''warp_range'' = read h' (Ref DEFAULT_STATE) ''warp_range'' \<and>
        \<not> deep_equal module_heap (Ref DEFAULT_STATE) h' (Ref DEFAULT_STATE))"
  using setAt_default_mode
  by (auto simp: deep_equal_def split: sum.splits prod.splits)

text \<open>
  Claim C2, as amended. The default document has its seven sections, each a mapping. The
  document at startup has them, unless it is what \<^verbatim>\<open>JSON.parse\<close> returned for a stored
  snapshot that is not empty (the snapshot is taken as it is parsed). A call of \<^verbatim>\<open>setAt\<close>
  that returns keeps them, unless the path is the bare name of a section and the value is
  not a mapping.
\<close>

theorem sections_invariant:
  "has_sections module_heap (Ref DEFAULT_STATE) \<and>
   (init_state JSON_parse getItem module_heap = (h0, doc) \<longrightarrow>
      has_sections h0 doc \<or>
      (\<exists>raw. raw \<noteq> [] \<and> getItem = Returns (Some raw) \<and>
         JSON_parse module_heap raw = Returns (h0, doc))) \<and>
   (wf_heap h \<longrightarrow> has_sections h (Ref d) \<longrightarrow>
    (length (split_dot path) = 1 \<and> hd (split_dot path) \<in> set SECTIONS \<longrightarrow> is_mapping h v) \<longrightarrow>
    setAt h d path v = Inr (h', d') \<longrightarrow> has_sections h' (Ref d'))"
proof (intro conjI impI)
  show "has_sections module_heap (Ref DEFAULT_STATE)" by (rule has_sections_module_heap)
next
  assume i: "init_state JSON_parse getItem module_heap = (h0, doc)"
  then have "(h0 = module_heap \<and> doc = Ref DEFAULT_STATE) \<or>
      (\<exists>raw. raw \<noteq> [] \<and> getItem = Returns (Some raw) \<and>
         JSON_parse module_heap raw = Returns (h0, doc))"
    by (auto simp: init_state_def split: outcome.splits option.splits if_splits)
  then show "has_sections h0 doc \<or>
      (\<exists>raw. raw \<noteq> [] \<and> getItem = Returns (Some raw) \<and>
         JSON_parse module_heap raw = Returns (h0, doc))"
    using has_sections_module_heap by blast
next
  assume a: "wf_heap h" "has_sections h (Ref d)"
    "length (split_dot path) = 1 \<and> hd (split_dot path) \<in> set SECTIONS \<longrightarrow> is_mapping h v"
    "setAt h d path v = Inr (h', d')"
  show "has_sections h' (Ref d')" using a(1,2,4,3) by (rule setAt_has_sections)
qed

text \<open>The amended claim at work: no snapshot is stored, and the first answer is given.\<close>

theorem sections_invariant_witness:
  "(\<exists>h0 doc. init_state (\<lambda>h raw. Throws) (Returns None) module_heap = (h0, doc) \<and>
      has_sections h0 doc) \<and>
   wf_heap module_heap \<and> has_sections module_heap (Ref DEFAULT_STATE) \<and>
   length (split_dot ''etp.blocks'') \<noteq> 1 \<and>
   (\<exists>h' d'. setAt module_heap DEFAULT_STATE ''etp.blocks'' (Str ''Physical'') = Inr (h', d') \<and>
      has_sections h' (Ref d'))"
proof -
  have e: "''etp'' \<in> set SECTIONS" by (simp add: SECTIONS_def)
  have nd: "CHR ''.'' \<notin> set ''blocks''" by simp
  have l: "length (split_dot ''etp.blocks'') \<noteq> 1" by simp
  have "\<exists>h' d'. setAt module_heap DEFAULT_STATE (''etp'' @ ''.'' @ ''blocks'') (Str ''Physical'') =
      Inr (h', d')"
    using wf_module_heap has_sections_module_heap e nd by (rule setAt_section_returns)
  then obtain h' d' where
    r: "setAt module_heap DEFAULT_STATE ''etp.blocks'' (Str ''Physical'') = Inr (h', d')"
    by auto
  have i: "init_state (\<lambda>h raw. Throws) (Returns None) module_heap = (module_heap, Ref DEFAULT_STATE)"
    by (simp add: init_state_def)
  have "has_sections h' (Ref d')"
    using sections_invariant[of "\<lambda>h raw. Throws" "Returns None" module_heap "Ref DEFAULT_STATE"
        module_heap DEFAULT_STATE "''etp.blocks''" "Str ''Physical''" h' d']
      wf_module_heap r l by simp
  moreover have "has_sections module_heap (Ref DEFAULT_STATE)"
    using sections_invariant[of "\<lambda>h raw. Throws" "Returns None" module_heap "Ref DEFAULT_STATE"
        module_heap DEFAULT_STATE "''etp.blocks''" "Str ''Physical''" h' d'] by simp
  ultimately show ?thesis using i wf_module_heap l r by auto
qed

text \<open>
  Claim C2 as stated fails twice. A call of \<^verbatim>\<open>setAt\<close> with the path \<open>etp\<close> and a string puts
  the string where the section was. And a stored snapshot \<open>{}\<close>, which \<^verbatim>\<open>JSON.parse\<close> turns
  into a new empty object, becomes the document at startup with no section at all.
\<close>

theorem sections_lost:
  "(case setAt module_heap DEFAULT_STATE ''etp'' (Str ''x'') of
      Inl e \<Rightarrow> False
    | Inr (h', d') \<Rightarrow> \<not> has_sections h' (Ref d')) \<and>
   (case init_state (\<lambda>h raw. case alloc h empty_object of (h', a) \<Rightarrow> Returns (h', Ref a))
           (Returns (Some ''{}'')) module_heap of
      (h', doc) \<Rightarrow> \<not> has_sections h' doc)"
  by (simp add: init_state_def heap_eval has_sections_def is_mapping_def SECTIONS_def)

text \<open>
  Claim C4. On a document that is a mapping, after \<^verbatim>\<open>setAt\<close> on a path that starts with
  the section \<open>s1\<close>, the new document holds under every other section \<open>s2\<close> the very value
  the old document holds there: the same reference.
\<close>

theorem structural_sharing:
  assumes "wf_heap h" "is_mapping h (Ref d)" "s1 \<in> set SECTIONS" "s2 \<in> set SECTIONS" "s1 \<noteq> s2"
    "setAt h d (s1 @ ''.'' @ field) v = Inr (h', d')"
  shows "read h' (Ref d') s2 = read h (Ref d) s2"
proof -
  from assms(2) obtain c where c: "cells h d = Some c" "\<not> is_array c"
    by (auto simp: is_mapping_Ref)
  have hd: "hd (split_dot (s1 @ ''.'' @ field)) = s1"
    using SECTIONS_nodot[OF assms(3)] by (simp add: split_dot_append)
  from setAt_root(2)[OF assms(6,1) c(1)] hd c(2) obtain w where
    "cells h' d' = Some (c\<lparr>props := (props c)(s1 \<mapsto> w)\<rparr>)"
    by (auto simp: spread_mapping)
  with c(1) assms(5) show ?thesis
    by (simp add: read_Ref get_prop_cell)
qed



theorem structural_sharing_witness:
  "wf_heap module_heap \<and> is_mapping module_heap (Ref DEFAULT_STATE) \<and>
   ''etp'' \<in> set SECTIONS \<and> ''warp_range'' \<in> set SECTIONS \<and> ''etp'' \<noteq> ''warp_range'' \<and>
   (\<exists>h' d'. setAt module_heap DEFAULT_STATE (''etp'' @ ''.'' @ ''blocks'') (Str ''Physical'') = Inr (h', d') \<and>
      read h' (Ref d') ''warp_range'' = read module_heap (Ref DEFAULT_STATE) ''warp_range'' \<and>
      read h' (Ref d') ''warp_range'' = Ref 1)"
proof -
  have m: "is_mapping module_heap (Ref DEFAULT_STATE)"
    using has_sections_module_heap by (simp add: has_sections_def)
  have e: "''etp'' \<in> set SECTIONS" and w: "''warp_range'' \<in> set SECTIONS"
    by (simp_all add: SECTIONS_def)
  have ne: "''etp'' \<noteq> ''warp_range''" by simp
  have nd: "CHR ''.'' \<notin> set ''blocks''" by simp
  obtain h' d' where
    r: "setAt module_heap DEFAULT_STATE (''etp'' @ ''.'' @ ''blocks'') (Str ''Physical'') = Inr (h', d')"
    using setAt_section_returns[OF wf_module_heap has_sections_module_heap e nd] by blast
  have "read h' (Ref d') ''warp_range'' = read module_heap (Ref DEFAULT_STATE) ''warp_range''"
    using structural_sharing[OF wf_module_heap m e w ne r] .
  moreover have "read module_heap (Ref DEFAULT_STATE) ''warp_range'' = Ref 1"
    by (simp add: heap_eval)
  ultimately show ?thesis using wf_module_heap m e w ne r by auto
qed




section \<open>The multi-select toggle\<close>

lemma fold_Set_add:
  "distinct acc \<Longrightarrow>
   distinct (fold (\<lambda>x s. Set_add s x) xs acc) \<and>
   set (fold (\<lambda>x s. Set_add s x) xs acc) = set acc \<union> set xs \<and>
   filter (\<lambda>y. y \<in> set acc) (fold (\<lambda>x s. Set_add s x) xs acc) = acc \<and>
   (distinct (acc @ xs) \<longrightarrow> fold (\<lambda>x s. Set_add s x) xs acc = acc @ xs)"
proof (induction xs arbitrary: acc)
  case Nil
  then show ?case by (simp add: filter_id_conv)
next
  case (Cons x xs)
  have d: "distinct (Set_add acc x)" using Cons.prems by (simp add: Set_add_def)
  note ih = Cons.IH[OF d]
  show ?case
  proof (cases "x \<in> set acc")
    case True
    with ih show ?thesis by (auto simp: Set_add_def)
  next
    case False
    with ih have f: "filter (\<lambda>y. y \<in> set (acc @ [x])) (fold (\<lambda>x s. Set_add s x) xs (acc @ [x])) = acc @ [x]"
      by (simp add: Set_add_def)
    have "filter (\<lambda>y. y \<in> set acc) (filter (\<lambda>y. y \<in> set (acc @ [x])) (fold (\<lambda>x s. Set_add s x) xs (acc @ [x])))
        = filter (\<lambda>y. y \<in> set acc) (acc @ [x])"
      by (simp only: f)
    then have "filter (\<lambda>y. y \<in> set acc) (fold (\<lambda>x s. Set_add s x) xs (acc @ [x])) = acc"
      using False by (simp add: filter_id_conv conj_commute cong: conj_cong)
    with ih False show ?thesis by (auto simp: Set_add_def)
  qed
qed

lemma Set_new_props:
  "distinct (Set_new xs)" "set (Set_new xs) = set xs" "distinct xs \<Longrightarrow> Set_new xs = xs"
  using fold_Set_add[of "[]" xs] by (simp_all add: Set_new_def)

text \<open>
  Claim C6. The set built from the selection, \<open>Set_new xs\<close>, is the selection with a repeated
  option kept at its first place only; it is the selection itself when no option is
  repeated. The toggle removes the option from it when the option is selected, and appends
  the option at the end otherwise. The other options keep their order. The result has no
  repeated option, and toggling the same option twice gives back the same set of options.
\<close>

theorem toggle_spec:
  "toggle xs x = (if x \<in> set xs then filter (\<lambda>y. y \<noteq> x) (Set_new xs) else Set_new xs @ [x]) \<and>
   (distinct xs \<longrightarrow> toggle xs x = (if x \<in> set xs then filter (\<lambda>y. y \<noteq> x) xs else xs @ [x])) \<and>
   (distinct xs \<longrightarrow> filter (\<lambda>y. y \<noteq> x) (toggle xs x) = filter (\<lambda>y. y \<noteq> x) xs) \<and>
   filter (\<lambda>y. y \<noteq> x) (toggle xs x) = filter (\<lambda>y. y \<noteq> x) (Set_new xs) \<and>
   set (toggle xs x) = (if x \<in> set xs then set xs - {x} else insert x (set xs)) \<and>
   distinct (toggle xs x) \<and>
   set (toggle (toggle xs x) x) = set xs"
proof -
  have t: "toggle xs x = (if x \<in> set xs then filter (\<lambda>y. y \<noteq> x) (Set_new xs) else Set_new xs @ [x])"
    for xs :: "'a list"
    by (simp add: toggle_def Set_has_def Set_delete_def Set_add_def Set_new_props Let_def)
  have s: "set (toggle xs x) = (if x \<in> set xs then set xs - {x} else insert x (set xs))"
    for xs :: "'a list"
    by (auto simp: t Set_new_props)
  have f: "filter (\<lambda>y. y \<noteq> x) (toggle xs x) = filter (\<lambda>y. y \<noteq> x) (Set_new xs)"
    using Set_new_props(2)[of xs] by (auto simp: t filter_id_conv)
  have "set (toggle (toggle xs x) x) = set xs"
    by (auto simp: s)
  moreover have "distinct (toggle xs x)" by (simp add: t Set_new_props)
  ultimately show ?thesis using t[of xs] s[of xs] f by (simp add: Set_new_props)
qed

theorem toggle_spec_witness:
  "distinct [''Physical'', ''Chemical'', ''ZLD''] \<and>
   toggle [''Physical'', ''Chemical'', ''ZLD''] ''Chemical'' = [''Physical'', ''ZLD''] \<and>
   distinct [''Physical'', ''ZLD''] \<and>
   toggle [''Physical'', ''ZLD''] ''Chemical'' = [''Physical'', ''ZLD'', ''Chemical'']"
proof -
  have d: "distinct [''Physical'', ''Chemical'', ''ZLD'']" "distinct [''Physical'', ''ZLD'']"
    by simp_all
  have "distinct [''Physical'', ''Chemical'', ''ZLD''] \<longrightarrow>
      toggle [''Physical'', ''Chemical'', ''ZLD''] ''Chemical'' =
        (if ''Chemical'' \<in> set [''Physical'', ''Chemical'', ''ZLD'']
         then filter (\<lambda>y. y \<noteq> ''Chemical'') [''Physical'', ''Chemical'', ''ZLD'']
         else [''Physical'', ''Chemical'', ''ZLD''] @ [''Chemical''])"
    using toggle_spec[of "[''Physical'', ''Chemical'', ''ZLD'']" "''Chemical''"] by blast
  with d(1) have a: "toggle [''Physical'', ''Chemical'', ''ZLD''] ''Chemical'' = [''Physical'', ''ZLD'']"
    by simp
  have "distinct [''Physical'', ''ZLD''] \<longrightarrow>
      toggle [''Physical'', ''ZLD''] ''Chemical'' =
        (if ''Chemical'' \<in> set [''Physical'', ''ZLD'']
         then filter (\<lambda>y. y \<noteq> ''Chemical'') [''Physical'', ''ZLD'']
         else [''Physical'', ''ZLD''] @ [''Chemical''])"
    using toggle_spec[of "[''Physical'', ''ZLD'']" "''Chemical''"] by blast
  with d(2) have b: "toggle [''Physical'', ''ZLD''] ''Chemical'' = [''Physical'', ''ZLD'', ''Chemical'']"
    by simp
  from d a b show ?thesis by blast
qed

section \<open>Numeric coercion\<close>















section \<open>The keyboard handler\<close>




section \<open>The pH window\<close>

text \<open>
  Claim C10. A text that starts with \<open>10.0\<close>, \<open>10.5\<close> or \<open>11.6\<close> is normalised to the
  window of that start, any other text is kept; the three options the select displays become
  the three windows; and on a well-formed store and a document with its sections, the
  select's \<^verbatim>\<open>onChange\<close> returns a document whose \<open>indigo_control.ph_window\<close> is the
  normalised text.
\<close>

theorem mapPh_stored:
  "(startsWith v ''10.0'' \<longrightarrow> mapPh v = ''10.0'' @ en_dash @ ''10.4'') \<and>
   (startsWith v ''10.5'' \<longrightarrow> mapPh v = ''10.5'' @ en_dash @ ''11.5'') \<and>
   (startsWith v ''11.6'' \<longrightarrow> mapPh v = ''11.6'' @ en_dash @ ''12.0'') \<and>
   (\<not> startsWith v ''10.0'' \<and> \<not> startsWith v ''10.5'' \<and> \<not> startsWith v ''11.6'' \<longrightarrow> mapPh v = v) \<and>
   map mapPh ph_options =
     [''10.0'' @ en_dash @ ''10.4'', ''10.5'' @ en_dash @ ''11.5'', ''11.6'' @ en_dash @ ''12.0''] \<and>
   (wf_heap h \<and> has_sections h (Ref d) \<longrightarrow>
     (\<exists>h' d'. ph_onChange h d v = Inr (h', d') \<and>
        read h' (read h' (Ref d') ''indigo_control'') ''ph_window'' = Str (mapPh v)))"
proof (intro conjI impI)
  show "mapPh v = ''10.0'' @ en_dash @ ''10.4''" if "startsWith v ''10.0''"
    using that by (simp add: mapPh_def)
  show "mapPh v = ''10.5'' @ en_dash @ ''11.5''" if "startsWith v ''10.5''"
    using that by (auto simp: mapPh_def startsWith_def)
  show "mapPh v = ''11.6'' @ en_dash @ ''12.0''" if "startsWith v ''11.6''"
    using that by (auto simp: mapPh_def startsWith_def)
  show "mapPh v = v"
    if "\<not> startsWith v ''10.0'' \<and> \<not> startsWith v ''10.5'' \<and> \<not> startsWith v ''11.6''"
    using that by (simp add: mapPh_def)
  show "map mapPh ph_options =
     [''10.0'' @ en_dash @ ''10.4'', ''10.5'' @ en_dash @ ''11.5'', ''11.6'' @ en_dash @ ''12.0'']"
    by (simp add: mapPh_def ph_options_def startsWith_def en_dash_def)
next
  assume a: "wf_heap h \<and> has_sections h (Ref d)"
  have s: "''indigo_control'' \<in> set SECTIONS" by (simp add: SECTIONS_def)
  have nd: "CHR ''.'' \<notin> set ''indigo_control''" "CHR ''.'' \<notin> set ''ph_window''" by simp_all
  have "\<exists>h' d'. setAt h d (''indigo_control'' @ ''.'' @ ''ph_window'') (Str (mapPh v)) = Inr (h', d')"
    using a s nd(2) by (intro setAt_section_returns) simp_all
  then obtain h' d' where
    r: "setAt h d (''indigo_control'' @ ''.'' @ ''ph_window'') (Str (mapPh v)) = Inr (h', d')"
    by blast
  have "read h' (read h' (Ref d') ''indigo_control'') ''ph_window'' = Str (mapPh v)"
    using a r nd by (intro setAt_two_read) simp_all
  with r show "\<exists>h' d'. ph_onChange h d v = Inr (h', d') \<and>
        read h' (read h' (Ref d') ''indigo_control'') ''ph_window'' = Str (mapPh v)"
    by (simp add: ph_onChange_def onSelect_def)
qed

theorem mapPh_stored_witness:
  "startsWith (ph_options ! 1) ''10.5'' \<and>
   mapPh (ph_options ! 1) = ''10.5'' @ en_dash @ ''11.5'' \<and>
   wf_heap module_heap \<and> has_sections module_heap (Ref DEFAULT_STATE) \<and>
   (\<exists>h' d'. ph_onChange module_heap DEFAULT_STATE (ph_options ! 1) = Inr (h', d') \<and>
      read h' (read h' (Ref d') ''indigo_control'') ''ph_window'' =
        Str (''10.5'' @ en_dash @ ''11.5''))"
proof -
  have s: "startsWith (ph_options ! 1) ''10.5''"
    by (simp add: ph_options_def startsWith_def)
  note t = mapPh_stored[of "ph_options ! 1" module_heap DEFAULT_STATE]
  from t s have m: "mapPh (ph_options ! 1) = ''10.5'' @ en_dash @ ''11.5''" by blast
  from t wf_module_heap has_sections_module_heap obtain h' d' where
    "ph_onChange module_heap DEFAULT_STATE (ph_options ! 1) = Inr (h', d')"
    "read h' (read h' (Ref d') ''indigo_control'') ''ph_window'' = Str (mapPh (ph_options ! 1))"
    by blast
  with s m wf_module_heap has_sections_module_heap show ?thesis by (simp only:) blast
qed

section \<open>The autosave effect\<close>

lemma clear_saveTimer_inv:
  assumes "sched_inv s"
  shows "clear_saveTimer s = s\<lparr>timers := []\<rparr>"
proof (cases "timers s")
  case Nil
  then show ?thesis
    by (simp add: clear_saveTimer_def clearTimeout_def split: option.splits)
next
  case (Cons t ts)
  with assms have "ts = []" "saveTimer s = Some (tid t)" "tid t \<noteq> 0"
    by (simp_all add: sched_inv_def)
  with Cons show ?thesis
    by (simp add: clear_saveTimer_def clearTimeout_def)
qed

lemma cleanup_result: "sched_inv s \<Longrightarrow> cleanup s = s\<lparr>timers := []\<rparr>"
  by (simp add: cleanup_def clear_saveTimer_inv)

lemma effect_result:
  "sched_inv s \<Longrightarrow>
   effect d s = s\<lparr>timers := [\<lparr>tid = next_id s, due = clock s + 500, payload = d\<rparr>],
                   next_id := Suc (next_id s), saveTimer := Some (next_id s)\<rparr>"
  by (simp add: effect_def clear_saveTimer_inv setTimeout_def)

lemma sched_inv_idle: "sched_inv s \<Longrightarrow> sched_inv (s\<lparr>timers := []\<rparr>)"
  by (simp add: sched_inv_def)

lemma change_result:
  "sched_inv s \<Longrightarrow>
   run_event (Change d) s =
     s\<lparr>timers := [\<lparr>tid = next_id s, due = clock s + 500, payload = d\<rparr>],
       next_id := Suc (next_id s), saveTimer := Some (next_id s)\<rparr>"
  using effect_result[OF sched_inv_idle, of s d] by (simp add: cleanup_result)

lemma sched_inv_effect: "sched_inv s \<Longrightarrow> sched_inv (effect d s)"
  by (simp add: effect_result) (simp add: sched_inv_def)

lemma sched_inv_cleanup: "sched_inv s \<Longrightarrow> sched_inv (cleanup s)"
  by (simp add: cleanup_result sched_inv_idle)

lemma sched_inv_tick: "sched_inv s \<Longrightarrow> sched_inv (tick s)"
proof (cases "timers s")
  case Nil
  assume "sched_inv s"
  with Nil show ?thesis by (simp add: sched_inv_def tick_def Let_def)
next
  case (Cons t ts)
  assume "sched_inv s"
  with Cons show ?thesis by (auto simp: sched_inv_def tick_def Let_def)
qed

lemma sched_inv_advance: "sched_inv s \<Longrightarrow> sched_inv (advance n s)"
  by (induction n arbitrary: s) (simp_all add: sched_inv_tick)

lemma sched_inv_run_event: "sched_inv s \<Longrightarrow> sched_inv (run_event e s)"
  by (cases e) (simp_all add: sched_inv_effect sched_inv_cleanup sched_inv_advance)

lemma sched_inv_run: "sched_inv s \<Longrightarrow> sched_inv (run es s)"
  unfolding run_def by (induction es arbitrary: s) (simp_all add: sched_inv_run_event)

lemma sched_inv_init: "sched_inv autosave_init"
  by (simp add: sched_inv_def autosave_init_def)

lemma advance_idle: "timers s = [] \<Longrightarrow> advance n s = s\<lparr>clock := clock s + n\<rparr>"
proof (induction n arbitrary: s)
  case 0
  then show ?case by simp
next
  case (Suc n)
  have "timers (tick s) = []" using Suc.prems by (simp add: tick_def Let_def)
  from Suc.IH[OF this] Suc.prems show ?case by (simp add: tick_def Let_def)
qed

lemma advance_pending:
  "timers s = [t] \<Longrightarrow> clock s < due t \<Longrightarrow>
   advance n s =
     (if clock s + n < due t then s\<lparr>clock := clock s + n\<rparr>
      else s\<lparr>clock := clock s + n, timers := [], writes := writes s @ [(due t, payload t)]\<rparr>)"
proof (induction n arbitrary: s)
  case 0
  then show ?case by simp
next
  case (Suc n)
  show ?case
  proof (cases "due t \<le> Suc (clock s)")
    case True
    with Suc.prems have d: "due t = Suc (clock s)" by simp
    have ts: "tick s = s\<lparr>clock := Suc (clock s), timers := [],
        writes := writes s @ [(due t, payload t)]\<rparr>"
      using Suc.prems d by (simp add: tick_def Let_def)
    have "timers (tick s) = []" by (simp add: ts)
    from advance_idle[OF this, of n] d show ?thesis by (simp add: ts)
  next
    case False
    have ts: "tick s = s\<lparr>clock := Suc (clock s)\<rparr>"
      using Suc.prems False by (simp add: tick_def Let_def)
    have "timers (tick s) = [t]" "clock (tick s) < due t"
      using Suc.prems False by (simp_all add: ts)
    from Suc.IH[OF this] False show ?thesis by (simp add: ts)
  qed
qed


lemma run_Cons: "run (e # es) s = run es (run_event e s)"
  by (simp add: run_def)

lemma run_Nil: "run [] s = s"
  by (simp add: run_def)

lemma run_append: "run (es @ es') s = run es' (run es s)"
  by (simp add: run_def)

text \<open>Two changes, the second \<open>gap\<close> units after the first, and then a wait of \<open>w\<close> units.\<close>

lemma two_changes:
  assumes "sched_inv s"
  shows "writes (run [Change a, Wait gap, Change b, Wait w] s) =
     writes s @ (if gap < 500 then [] else [(clock s + 500, a)])
              @ (if w < 500 then [] else [(clock s + gap + 500, b)])"
proof -
  let ?ta = "\<lparr>tid = next_id s, due = clock s + 500, payload = a\<rparr>"
  let ?s1 = "s\<lparr>timers := [?ta], next_id := Suc (next_id s), saveTimer := Some (next_id s)\<rparr>"
  have e1: "run_event (Change a) s = ?s1"
    using assms by (rule change_result)
  have i1: "sched_inv ?s1"
    using sched_inv_run_event[OF assms, of "Change a"] unfolding e1 .
  let ?s2 = "advance gap ?s1"
  have s2: "?s2 = (if gap < 500 then ?s1\<lparr>clock := clock s + gap\<rparr>
      else ?s1\<lparr>clock := clock s + gap, timers := [], writes := writes s @ [(clock s + 500, a)]\<rparr>)"
    using advance_pending[of ?s1 ?ta gap] by simp
  have i2: "sched_inv ?s2" using i1 by (rule sched_inv_advance)
  have c2: "clock ?s2 = clock s + gap" "next_id ?s2 = Suc (next_id s)"
    "writes ?s2 = writes s @ (if gap < 500 then [] else [(clock s + 500, a)])"
    by (simp_all add: s2)
  let ?tb = "\<lparr>tid = Suc (next_id s), due = clock s + gap + 500, payload = b\<rparr>"
  let ?s3 = "?s2\<lparr>timers := [?tb], next_id := Suc (Suc (next_id s)),
      saveTimer := Some (Suc (next_id s))\<rparr>"
  have e3: "run_event (Change b) ?s2 = ?s3"
    using change_result[OF i2, of b] unfolding c2 .
  have c3: "clock ?s3 = clock s + gap" "timers ?s3 = [?tb]"
    "writes ?s3 = writes s @ (if gap < 500 then [] else [(clock s + 500, a)])"
    using c2 by simp_all
  have s4: "writes (advance w ?s3) =
      writes ?s3 @ (if w < 500 then [] else [(clock s + gap + 500, b)])"
    using advance_pending[of ?s3 ?tb w] c3(1) by (simp del: advance.simps)
  have "run [Change a, Wait gap, Change b, Wait w] s = run [Wait gap, Change b, Wait w] ?s1"
    by (simp only: run_Cons e1)
  also have "\<dots> = run [Change b, Wait w] ?s2"
    by (simp only: run_Cons run_event.simps)
  also have "\<dots> = run [Wait w] ?s3"
    by (simp only: run_Cons e3)
  also have "\<dots> = advance w ?s3"
    by (simp only: run_Cons run_Nil run_event.simps)
  finally have r: "run [Change a, Wait gap, Change b, Wait w] s = advance w ?s3" .
  show ?thesis
    unfolding r s4 c3(3) by simp
qed

text \<open>
  Claim C5. Take any history of the component and call the time it ends \<open>0\<close>. When the
  document changes at \<open>0\<close> and at \<open>300\<close>, nothing is written before \<open>800\<close>, and from \<open>800\<close>
  on exactly one write has been added, made at \<open>800\<close> with the document of \<open>300\<close>. When it
  changes at \<open>0\<close> and at \<open>600\<close>, the first document is written at \<open>500\<close> and the second at
  \<open>1100\<close>: two writes. At every moment at most one timeout is pending. At unmount the
  pending timeout is cleared, and nothing is written afterwards.
\<close>

theorem autosave_debounce:
  fixes es :: "'d event list"
  shows
   "writes (run (es @ [Change a, Wait 300, Change b, Wait w]) autosave_init) =
      writes (run es autosave_init) @
        (if w < 500 then [] else [(clock (run es autosave_init) + 800, b)]) \<and>
    writes (run (es @ [Change a, Wait 600, Change b, Wait w]) autosave_init) =
      writes (run es autosave_init) @ [(clock (run es autosave_init) + 500, a)] @
        (if w < 500 then [] else [(clock (run es autosave_init) + 1100, b)]) \<and>
    length (timers (run es autosave_init)) \<le> 1 \<and>
    timers (run (es @ [Unmount]) autosave_init) = [] \<and>
    writes (run (es @ [Unmount, Wait w]) autosave_init) = writes (run es autosave_init)"
proof -
  let ?s = "run es autosave_init"
  have i: "sched_inv ?s" using sched_inv_init by (rule sched_inv_run)
  note u = cleanup_result[OF i]
  have "writes (run [Change a, Wait 300, Change b, Wait w] ?s) =
      writes ?s @ (if w < 500 then [] else [(clock ?s + 800, b)])"
    using two_changes[OF i, of a 300 b w] by simp
  moreover have "writes (run [Change a, Wait 600, Change b, Wait w] ?s) =
      writes ?s @ [(clock ?s + 500, a)] @ (if w < 500 then [] else [(clock ?s + 1100, b)])"
    using two_changes[OF i, of a 600 b w] by simp
  moreover have "length (timers ?s) \<le> 1" using i by (simp add: sched_inv_def)
  moreover have "timers (run [Unmount] ?s) = []" by (simp add: run_Cons run_Nil u)
  moreover have "writes (run [Unmount, Wait w] ?s) = writes ?s"
    by (simp add: run_Cons run_Nil u advance_idle)
  ultimately show ?thesis by (simp only: run_append)
qed

end
